theory Spec2Isabelle
  imports Main "HOL-Library.Word"
begin

unbundle bit_operations_syntax

section \<open>Data model of objectstore_bench.cc\<close>

text \<open>
  The benchmark is built for an LP64 platform: \<open>size_t\<close>, \<open>uint64_t\<close> and
  \<open>unsigned long long\<close> are 64-bit words whose arithmetic wraps around. Values of
  the C++ type \<open>int\<close> (\<open>repeats\<close>, \<open>threads\<close>, the loop counters) and the signed
  tick count of a duration are modelled by their mathematical value in \<open>int\<close>; the
  only thing the program does with them besides counting is to convert them to a
  64-bit unsigned operand, which is \<open>word_of_int\<close>.
\<close>

type_synonym u64 = "64 word"

definition INT_MAX :: int where
  "INT_MAX = 2147483647"

text \<open>
  The ways a run ends without a result. A failed \<open>assert\<close> aborts the process. The
  other three are operations whose behaviour C++ leaves undefined: an integer division
  or remainder by zero, a shift by the full width of the operand, and a read past the
  end of an array. None of them is an error the program detects and reports.
\<close>

datatype fault = Assertion_failed | Division_by_zero | Shift_out_of_range | Index_out_of_bounds

text \<open>\<open>struct byte_units { size_t v; ... }\<close>\<close>

record byte_units =
  v :: u64

text \<open>\<open>struct Config\<close>; the field \<open>size\<close> is named \<open>size_cfg\<close> here.\<close>

record Config =
  size_cfg :: byte_units
  block_size :: byte_units
  repeats :: int
  threads :: int
  multi_object :: bool

text \<open>The default constructor of \<open>Config\<close>.\<close>

definition Config_default :: Config where
  "Config_default =
     \<lparr>size_cfg = \<lparr>v = 1048576\<rparr>, block_size = \<lparr>v = 4096\<rparr>,
      repeats = 1, threads = 1, multi_object = False\<rparr>"

text \<open>A configuration as the command line sets it: size, block size, repeats, threads.\<close>

definition mk_config :: "u64 \<Rightarrow> u64 \<Rightarrow> int \<Rightarrow> int \<Rightarrow> Config" where
  "mk_config s b r t =
     \<lparr>size_cfg = \<lparr>v = s\<rparr>, block_size = \<lparr>v = b\<rparr>, repeats = r, threads = t,
      multi_object = False\<rparr>"

section \<open>The worker: one write cycle\<close>

text \<open>
  \<open>t->write(cid, oid, offset, count, data)\<close>: within one worker the collection, the
  object and the data buffer are fixed, so a transaction is its offset and its length.
\<close>

datatype transaction = Write (w_offset: u64) (w_len: u64)

text \<open>
  The inner loop \<open>while (len) { ... }\<close> of \<open>osbench_worker\<close>, with its three
  variables \<open>offset\<close>, \<open>len\<close> and \<open>tls\<close>. Nothing in the loop itself bounds the
  number of iterations (with a block size of zero \<open>len\<close> never changes), so the loop
  is a partial function: \<open>None\<close> stands for a loop that never exits.
\<close>

partial_function (option) write_loop ::
  "Config \<Rightarrow> u64 \<Rightarrow> u64 \<Rightarrow> transaction list \<Rightarrow> transaction list option"
where
  "write_loop cfg offset len tls =
     (if len \<noteq> 0 then
        (let count = (if len < v (block_size cfg) then len else v (block_size cfg));
             tls' = tls @ [Write offset count];
             offset' = offset + count;
             offset'' = (if offset' > v (size_cfg cfg) then offset' - v (size_cfg cfg)
                         else offset')
         in write_loop cfg offset'' (len - count) tls')
      else Some tls)"

text \<open>
  One pass of the body of \<open>for (int i = 0; i < cfg.repeats; ++i)\<close> up to the call of
  \<open>queue_transactions\<close>: \<open>offset = starting_offset\<close>, \<open>len = cfg.size\<close>, \<open>tls\<close> empty.
\<close>

definition write_cycle :: "Config \<Rightarrow> u64 \<Rightarrow> transaction list option" where
  "write_cycle cfg starting_offset = write_loop cfg starting_offset (v (size_cfg cfg)) []"

text \<open>
  The two assertions at the head of \<open>osbench_worker\<close>. The second one computes
  \<open>starting_offset % cfg.block_size\<close>, which has no defined value for a block size
  of zero.
\<close>

definition worker_asserts :: "Config \<Rightarrow> u64 \<Rightarrow> fault option" where
  "worker_asserts cfg starting_offset =
     (if \<not> starting_offset < v (size_cfg cfg) then Some Assertion_failed
      else if v (block_size cfg) = 0 then Some Division_by_zero
      else if \<not> starting_offset mod v (block_size cfg) = 0 then Some Assertion_failed
      else None)"

text \<open>The outer loop: every repeat builds its batch afresh and submits it.\<close>

fun run_cycles :: "Config \<Rightarrow> u64 \<Rightarrow> nat \<Rightarrow> transaction list list option" where
  "run_cycles cfg starting_offset 0 = Some []"
| "run_cycles cfg starting_offset (Suc n) =
     (case write_cycle cfg starting_offset of
        None \<Rightarrow> None
      | Some tls \<Rightarrow> map_option (Cons tls) (run_cycles cfg starting_offset n))"

text \<open>
  The block lengths as the specification words them: each block has length
  \<open>min(block_size, remaining)\<close> until nothing remains.
\<close>

fun spec_lengths :: "nat \<Rightarrow> nat \<Rightarrow> nat list" where
  "spec_lengths b 0 = []"
| "spec_lengths b (Suc n) =
     (if b = 0 then [] else min b (Suc n) # spec_lengths b (Suc n - min b (Suc n)))"

section \<open>Parsing a size with a unit suffix\<close>

text \<open>
  \<open>val.c_str()\<close>: the characters of the string up to its first NUL. Reading the
  position just behind them yields the terminating NUL.
\<close>

definition c_str :: "string \<Rightarrow> string" where
  "c_str val = takeWhile (\<lambda>c. c \<noteq> CHR 0x00) val"

definition deref :: "string \<Rightarrow> nat \<Rightarrow> char" where
  "deref cs p = (if p < length cs then cs ! p else CHR 0x00)"

text \<open>
  The C library function \<open>strtoull(nptr, &endptr, 10)\<close>, as ISO C describes it and in the
  "C" locale: white space is skipped, an optional sign is read, then the longest run of
  decimal digits. Without a digit nothing is converted: the result is 0 and
  \<open>endptr\<close> is \<open>nptr\<close> (position 0). A value beyond \<open>ULLONG_MAX\<close> gives \<open>ULLONG_MAX\<close>
  and sets \<open>errno\<close> to \<open>ERANGE\<close>; a minus sign negates the converted value in the
  unsigned type. The triple is (return value, position of \<open>endptr\<close>, \<open>errno\<close>). A
  library that also reports \<open>EINVAL\<close> when nothing is converted is handled by
  \<open>parse\<close> the same way, through its test of \<open>endptr\<close>.
\<close>

datatype errno = No_error | ERANGE | EINVAL

definition isspace :: "char \<Rightarrow> bool" where
  "isspace c = (c \<in> set [CHR '' '', CHR 0x09, CHR 0x0A, CHR 0x0B, CHR 0x0C, CHR 0x0D])"

definition isdigit :: "char \<Rightarrow> bool" where
  "isdigit c = (48 \<le> (of_char c :: nat) \<and> (of_char c :: nat) \<le> 57)"

definition dec_value :: "string \<Rightarrow> nat" where
  "dec_value ds = foldl (\<lambda>a c. 10 * a + (of_char c - 48)) 0 ds"

definition ULLONG_MAX :: u64 where
  "ULLONG_MAX = - 1"

definition strtoull :: "string \<Rightarrow> u64 \<times> nat \<times> errno" where
  "strtoull cs =
     (let n_space = length (takeWhile isspace cs);
          r1 = dropWhile isspace cs;
          neg = (r1 \<noteq> [] \<and> hd r1 = CHR ''-'');
          n_sign = (if r1 \<noteq> [] \<and> (hd r1 = CHR ''-'' \<or> hd r1 = CHR ''+'') then 1 else 0);
          ds = takeWhile isdigit (drop n_sign r1);
          n = dec_value ds
      in if ds = [] then (0, 0, No_error)
         else if 2 ^ 64 \<le> n then (ULLONG_MAX, n_space + n_sign + length ds, ERANGE)
         else ((if neg then - of_nat n else of_nat n), n_space + n_sign + length ds, No_error))"

text \<open>
  The \<open>switch (*endptr)\<close> of \<open>byte_units::parse\<close>. The cases fall through, so the
  label that is entered decides how many times \<open>lshift += 10\<close> runs.
\<close>

datatype unit_case = Case_T | Case_G | Case_M | Case_K | Case_NUL | Case_default

definition unit_case_of :: "char \<Rightarrow> unit_case" where
  "unit_case_of c =
     (if c = CHR ''t'' \<or> c = CHR ''T'' then Case_T
      else if c = CHR ''g'' \<or> c = CHR ''G'' then Case_G
      else if c = CHR ''m'' \<or> c = CHR ''M'' then Case_M
      else if c = CHR ''k'' \<or> c = CHR ''K'' then Case_K
      else if c = CHR 0x00 then Case_NUL
      else Case_default)"

definition lshift_of :: "unit_case \<Rightarrow> nat" where
  "lshift_of l =
     (case l of
        Case_T \<Rightarrow> 0 + 10 + 10 + 10 + 10
      | Case_G \<Rightarrow> 0 + 10 + 10 + 10
      | Case_M \<Rightarrow> 0 + 10 + 10
      | Case_K \<Rightarrow> 0 + 10
      | Case_NUL \<Rightarrow> 0
      | Case_default \<Rightarrow> 0)"

text \<open>
  \<open>bool byte_units::parse(const std::string &val)\<close>: the returned flag together with
  the object, whose \<open>v\<close> is assigned only on the last line. With no unit suffix
  \<open>lshift\<close> is 0 and the overflow test evaluates \<open>1ull << 64\<close>, a shift by the full
  width of the type, for which C++ defines no result.
\<close>

definition parse :: "string \<Rightarrow> byte_units \<Rightarrow> fault + (bool \<times> byte_units)" where
  "parse val self =
     (let cs = c_str val;
          (ret, endptr, err) = strtoull cs
      in if err = ERANGE \<and> ret = ULLONG_MAX then Inr (False, self)
         else if err \<noteq> No_error \<and> ret = 0 then Inr (False, self)
         else if endptr = 0 then Inr (False, self)
         else
           (let l = unit_case_of (deref cs endptr);
                lshift = lshift_of l
            in if l = Case_default then Inr (False, self)
               else if l \<noteq> Case_NUL \<and> deref cs (endptr + 1) \<noteq> CHR 0x00 then Inr (False, self)
               else if 64 \<le> 64 - lshift then Inl Shift_out_of_range
               else if ret AND NOT (push_bit (64 - lshift) 1 - 1) \<noteq> 0 then Inr (False, self)
               else Inr (True, self\<lparr>v := push_bit lshift ret\<rparr>)))"

text \<open>
  The unit suffixes with the shift amounts the specification gives them: K is 10 bits,
  M is 20, G is 30 and T is 40, in either case of the letter.
\<close>

definition unit_suffixes :: "(char \<times> nat) list" where
  "unit_suffixes =
     [(CHR ''k'', 10), (CHR ''K'', 10), (CHR ''m'', 20), (CHR ''M'', 20),
      (CHR ''g'', 30), (CHR ''G'', 30), (CHR ''t'', 40), (CHR ''T'', 40)]"

section \<open>Printing a size with a unit\<close>

definition units :: "string list" where
  "units = [''B'', ''KB'', ''MB'', ''GB'', ''TB'']"

definition max_units :: nat where
  "max_units = length units"

text \<open>
  The loop of \<open>operator<<\<close> on the pair (\<open>v\<close>, \<open>unit\<close>); \<open>unit\<close> starts at 0 and only
  counts upwards, so it is a natural number here.
\<close>

function format_loop :: "u64 \<Rightarrow> nat \<Rightarrow> u64 \<times> nat" where
  "format_loop x unit =
     (if 1024 \<le> x \<and> unit < max_units then
        (if x < 1048576 \<and> x mod 1024 \<noteq> 0 then (x, unit)
         else format_loop (drop_bit 10 x) (unit + 1))
      else (x, unit))"
  by pat_completeness auto
termination
  by (relation "measure (\<lambda>(x, unit). max_units - unit)") auto

declare format_loop.simps [simp del]

text \<open>\<open>out << v\<close> for an unsigned integer: its decimal digits.\<close>

definition digit_chars :: string where
  "digit_chars = ''0123456789''"

fun show_nat :: "nat \<Rightarrow> string" where
  "show_nat n =
     (if n < 10 then [digit_chars ! n]
      else show_nat (n div 10) @ [digit_chars ! (n mod 10)])"

declare show_nat.simps [simp del]

text \<open>
  \<open>operator<<(std::ostream&, const byte_units&)\<close>: the text written to the stream.
  \<open>units[unit]\<close> reads an array of \<open>max_units\<close> elements.
\<close>

definition print_byte_units :: "byte_units \<Rightarrow> fault + string" where
  "print_byte_units amount =
     (let (x, unit) = format_loop (v amount) 0
      in if unit < length units then Inr (show_nat (unat x) @ '' '' @ units ! unit)
         else Inl Index_out_of_bounds)"

text \<open>
  \<open>osbench_worker\<close>: the batches handed to \<open>queue_transactions\<close>, in order, or the
  fault that stops the worker; \<open>None\<close> when the worker never returns. Before its
  assertions the worker logs \<open>"Writing " << cfg.size << " in blocks of " <<
  cfg.block_size\<close>, which formats first the size and then the block size with
  \<open>operator<<\<close>; a fault of the formatter stops the worker there.
\<close>

definition osbench_worker :: "Config \<Rightarrow> u64 \<Rightarrow> (fault + transaction list list) option" where
  "osbench_worker cfg starting_offset =
     (case print_byte_units (size_cfg cfg) of
        Inl f \<Rightarrow> Some (Inl f)
      | Inr _ \<Rightarrow>
          (case print_byte_units (block_size cfg) of
             Inl f \<Rightarrow> Some (Inl f)
           | Inr _ \<Rightarrow>
               (case worker_asserts cfg starting_offset of
                  Some f \<Rightarrow> Some (Inl f)
                | None \<Rightarrow> map_option Inr (run_cycles cfg starting_offset (nat (repeats cfg))))))"

text \<open>
  The scaling as the specification words it: divide by 1024 while the value is at least
  1024 and either an exact multiple of 1024 or at least one mebibyte.
\<close>

function spec_scale :: "nat \<Rightarrow> nat \<Rightarrow> nat \<times> nat" where
  "spec_scale x u =
     (if 1024 \<le> x \<and> (x mod 1024 = 0 \<or> 1048576 \<le> x) then spec_scale (x div 1024) (u + 1)
      else (x, u))"
  by pat_completeness auto
termination
  by (relation "measure (\<lambda>(x, u). x)") auto

declare spec_scale.simps [simp del]

section \<open>The driver: starting offsets and throughput\<close>

text \<open>
  The argument \<open>i * cfg.size / cfg.threads\<close> passed to worker \<open>i\<close>: both \<open>int\<close>
  operands are converted to the 64-bit unsigned type of \<open>cfg.size\<close>, the product
  wraps around, the division is unsigned.
\<close>

definition starting_offset :: "Config \<Rightarrow> int \<Rightarrow> fault + u64" where
  "starting_offset cfg i =
     (if (word_of_int (threads cfg) :: u64) = 0 then Inl Division_by_zero
      else Inr ((word_of_int i * v (size_cfg cfg)) div word_of_int (threads cfg)))"

text \<open>\<open>for (int i = 0; i < cfg.threads; i++)\<close>: one starting offset per worker.\<close>

definition spawn_offsets :: "Config \<Rightarrow> (fault + u64) list" where
  "spawn_offsets cfg = map (starting_offset cfg) [0 .. threads cfg - 1]"

text \<open>
  The statistics computed after the join, from the tick count \<open>duration.count()\<close> in
  microseconds: (\<open>total\<close>, \<open>rate\<close>, \<open>iops\<close>). Every operand is converted to a 64-bit
  unsigned integer; the two divisions by the tick count and the division by the block
  size have no defined result for a zero divisor.
\<close>

definition throughput :: "Config \<Rightarrow> int \<Rightarrow> fault + (u64 \<times> u64 \<times> u64)" where
  "throughput cfg duration_count =
     (let total = v (size_cfg cfg) * word_of_int (repeats cfg) * word_of_int (threads cfg);
          d = (word_of_int duration_count :: u64)
      in if d = 0 then Inl Division_by_zero
         else
           (let rate = (1000000 * total) div d
            in if v (block_size cfg) = 0 then Inl Division_by_zero
               else
                 (let iops = ((1000000 * total) div v (block_size cfg)) div d
                  in Inr (total, rate, iops))))"

section \<open>Properties of the write cycle\<close>

lemma spec_lengths_unfold:
  "0 < b \<Longrightarrow> 0 < n \<Longrightarrow> spec_lengths b n = min b n # spec_lengths b (n - min b n)"
  by (cases n) simp_all

lemma spec_lengths_sum: "0 < b \<Longrightarrow> sum_list (spec_lengths b n) = n"
proof (induction n rule: less_induct)
  case (less n)
  show ?case
  proof (cases "n = 0")
    case True
    then show ?thesis by simp
  next
    case False
    with less.prems have "n - min b n < n" by (simp add: min_def)
    with less have "sum_list (spec_lengths b (n - min b n)) = n - min b n" by blast
    with False less.prems show ?thesis by (simp add: spec_lengths_unfold)
  qed
qed

lemma spec_lengths_Nil: "0 < b \<Longrightarrow> spec_lengths b n = [] \<longleftrightarrow> n = 0"
  by (cases n) simp_all

lemma spec_lengths_last:
  "0 < b \<Longrightarrow> 0 < n \<Longrightarrow> last (spec_lengths b n) = (if n mod b \<noteq> 0 then n mod b else b)"
proof (induction n rule: less_induct)
  case (less n)
  show ?case
  proof (cases "n \<le> b")
    case True
    with less.prems have "spec_lengths b n = [n]" by (simp add: spec_lengths_unfold min_def)
    with True less.prems show ?thesis by (cases "n = b") auto
  next
    case False
    then have nb: "b < n" by simp
    with less.prems have step: "spec_lengths b n = b # spec_lengths b (n - b)"
      by (simp add: spec_lengths_unfold min_def)
    from nb less.prems have "n - b < n" "0 < n - b" by simp_all
    with less have
      "last (spec_lengths b (n - b)) = (if (n - b) mod b \<noteq> 0 then (n - b) mod b else b)"
      by blast
    moreover from nb have "(n - b) mod b = n mod b" by (simp add: le_mod_geq)
    moreover from nb less.prems have "spec_lengths b (n - b) \<noteq> []"
      by (simp add: spec_lengths_Nil)
    ultimately show ?thesis using step by simp
  qed
qed

lemma spec_lengths_nth:
  "0 < b \<Longrightarrow> k < length (spec_lengths b n) \<Longrightarrow>
     spec_lengths b n ! k = min b (n - sum_list (take k (spec_lengths b n)))"
proof (induction k arbitrary: n)
  case 0
  then have "n \<noteq> 0" by (cases n) auto
  with 0 show ?case by (simp add: spec_lengths_unfold)
next
  case (Suc k)
  then have n: "0 < n" by (cases n) auto
  with Suc.prems have step: "spec_lengths b n = min b n # spec_lengths b (n - min b n)"
    by (simp add: spec_lengths_unfold)
  with Suc.prems have "k < length (spec_lengths b (n - min b n))" by simp
  with Suc.IH Suc.prems(1) have
    "spec_lengths b (n - min b n) ! k =
       min b (n - min b n - sum_list (take k (spec_lengths b (n - min b n))))" by blast
  with step show ?case by simp
qed

text \<open>
  With a block size other than zero the loop exits, and the lengths it appends are the
  ones the specification describes. The induction is on the value of \<open>len\<close>, which
  every iteration makes smaller.
\<close>

lemma write_loop_lengths:
  assumes bs: "v (block_size cfg) \<noteq> 0"
  shows "\<exists>ws. write_loop cfg off len acc = Some (acc @ ws) \<and>
           map (\<lambda>t. unat (w_len t)) ws = spec_lengths (unat (v (block_size cfg))) (unat len)"
proof (induction "unat len" arbitrary: off len acc rule: less_induct)
  case less
  show ?case
  proof (cases "len = 0")
    case True
    then show ?thesis by (subst write_loop.simps) simp
  next
    case False
    define count where "count = (if len < v (block_size cfg) then len else v (block_size cfg))"
    define off' where
      "off' = (if off + count > v (size_cfg cfg) then off + count - v (size_cfg cfg)
               else off + count)"
    have c_le: "count \<le> len" by (simp add: count_def not_less)
    have c_nz: "count \<noteq> 0" using False bs by (simp add: count_def)
    have c_nat: "unat count = min (unat (v (block_size cfg))) (unat len)"
      by (simp add: count_def min_def word_less_nat_alt)
    have sub: "unat (len - count) = unat len - unat count"
      using c_le by (simp add: unat_sub)
    have "unat count \<noteq> 0" using c_nz by (simp add: unat_eq_0)
    moreover have "unat count \<le> unat len" using c_le by (simp add: word_le_nat_alt)
    ultimately have "unat (len - count) < unat len" using sub by simp
    from less [OF this, of off' "acc @ [Write off count]"] obtain ws where
      ws: "write_loop cfg off' (len - count) (acc @ [Write off count]) =
             Some ((acc @ [Write off count]) @ ws)"
          "map (\<lambda>t. unat (w_len t)) ws =
             spec_lengths (unat (v (block_size cfg))) (unat (len - count))"
      by blast
    have unfold: "write_loop cfg off len acc =
        write_loop cfg off' (len - count) (acc @ [Write off count])"
      using False by (subst write_loop.simps) (simp add: count_def off'_def Let_def)
    have "0 < unat (v (block_size cfg))" using bs by (simp add: unat_gt_0)
    moreover have "0 < unat len" using False by (simp add: unat_gt_0)
    ultimately have "spec_lengths (unat (v (block_size cfg))) (unat len) =
        unat count # spec_lengths (unat (v (block_size cfg))) (unat (len - count))"
      by (simp add: spec_lengths_unfold c_nat sub)
    with ws unfold show ?thesis by (intro exI [of _ "Write off count # ws"]) simp
  qed
qed

lemma worker_asserts_NoneD:
  "worker_asserts cfg so = None \<Longrightarrow>
     so < v (size_cfg cfg) \<and> v (block_size cfg) \<noteq> 0 \<and> so mod v (block_size cfg) = 0"
  by (simp add: worker_asserts_def split: if_splits)

text \<open>
  The log line at the head of the worker formats the size before anything is asserted
  or written: with a size of \<open>2 ^ 50\<close> bytes the worker ends there, in the formatter's
  read past its table.
\<close>

lemma osbench_worker_log_line_fault:
  "osbench_worker (mk_config 1125899906842624 4096 1 1) 0 = Some (Inl Index_out_of_bounds)"
  by (simp add: osbench_worker_def mk_config_def print_byte_units_def format_loop.simps
      max_units_def units_def)

text \<open>
  C1. The claim: every offset emitted in one repeat cycle is below the total size,
  because the running offset is wrapped as soon as it reaches the total size. The loop
  wraps only when the offset exceeds the total size (\<open>offset > cfg.size\<close>). With a
  size of 8, blocks of 4 and two threads, the second thread starts at offset 4, passes
  both assertions, and its cycle writes at offset 4 and then at offset 8, which is the
  total size itself.
\<close>

theorem write_cycle_emits_offset_at_size:
  "starting_offset (mk_config 8 4 1 2) 1 = Inr 4 \<and>
   worker_asserts (mk_config 8 4 1 2) 4 = None \<and>
   write_cycle (mk_config 8 4 1 2) 4 = Some [Write 4 4, Write 8 4] \<and>
   osbench_worker (mk_config 8 4 1 2) 4 = Some (Inr [[Write 4 4, Write 8 4]])"
  by (simp add: starting_offset_def worker_asserts_def write_cycle_def osbench_worker_def
      mk_config_def write_loop.simps print_byte_units_def format_loop.simps max_units_def
      units_def)

text \<open>
  C2. For every total size and block size and every starting offset that passes the
  worker's assertions, the cycle is built in finitely many steps; the lengths of its
  writes sum to the total size; each length is the minimum of the block size and the
  bytes that remain after the writes before it; and the last length is the total size
  modulo the block size when that is not zero, and the block size otherwise.
\<close>

theorem write_cycle_lengths:
  assumes ok: "worker_asserts cfg so = None"
  shows "\<exists>tls. write_cycle cfg so = Some tls \<and>
           (\<Sum>t\<leftarrow>tls. unat (w_len t)) = unat (v (size_cfg cfg)) \<and>
           (\<forall>k<length tls. unat (w_len (tls ! k)) =
               min (unat (v (block_size cfg)))
                   (unat (v (size_cfg cfg)) - (\<Sum>t\<leftarrow>take k tls. unat (w_len t)))) \<and>
           w_len (last tls) =
             (if v (size_cfg cfg) mod v (block_size cfg) \<noteq> 0
              then v (size_cfg cfg) mod v (block_size cfg) else v (block_size cfg))"
proof -
  let ?b = "unat (v (block_size cfg))" and ?n = "unat (v (size_cfg cfg))"
  let ?f = "\<lambda>t. unat (w_len t)"
  from worker_asserts_NoneD [OF ok] have bs: "v (block_size cfg) \<noteq> 0"
    and sz: "v (size_cfg cfg) \<noteq> 0" by auto
  then have b: "0 < ?b" and n: "0 < ?n" by (simp_all add: unat_gt_0)
  from write_loop_lengths [OF bs, of so "v (size_cfg cfg)" "[]"] obtain tls where
    run: "write_cycle cfg so = Some tls" and lens: "map ?f tls = spec_lengths ?b ?n"
    by (auto simp: write_cycle_def)
  have total: "sum_list (map ?f tls) = ?n"
    using b by (simp add: lens spec_lengths_sum)
  have each: "?f (tls ! k) = min ?b (?n - sum_list (map ?f (take k tls)))"
    if "k < length tls" for k
  proof -
    from that have k: "k < length (spec_lengths ?b ?n)" by (simp flip: lens)
    from that have "?f (tls ! k) = map ?f tls ! k" by simp
    also have "\<dots> = min ?b (?n - sum_list (take k (map ?f tls)))"
      using spec_lengths_nth [OF b k] by (simp only: lens)
    finally show ?thesis by (simp add: take_map)
  qed
  have ne: "tls \<noteq> []"
  proof
    assume "tls = []"
    with lens have "spec_lengths ?b ?n = []" by simp
    with b n show False by (simp add: spec_lengths_Nil)
  qed
  then have "?f (last tls) = last (map ?f tls)" by (simp add: last_map)
  also have "\<dots> = (if ?n mod ?b \<noteq> 0 then ?n mod ?b else ?b)"
    using spec_lengths_last [OF b n] by (simp only: lens)
  finally have lastn: "?f (last tls) = (if ?n mod ?b \<noteq> 0 then ?n mod ?b else ?b)" .
  have modn: "unat (v (size_cfg cfg) mod v (block_size cfg)) = ?n mod ?b"
    by (simp add: unat_mod)
  have lastw: "w_len (last tls) =
      (if v (size_cfg cfg) mod v (block_size cfg) \<noteq> 0
       then v (size_cfg cfg) mod v (block_size cfg) else v (block_size cfg))"
  proof (cases "v (size_cfg cfg) mod v (block_size cfg) = 0")
    case True
    then have "?n mod ?b = 0" using modn by simp
    with lastn have "unat (w_len (last tls)) = ?b" by simp
    then have "w_len (last tls) = v (block_size cfg)" by (simp only: word_unat_eq_iff)
    with True show ?thesis by simp
  next
    case False
    then have "?n mod ?b \<noteq> 0" using modn by (simp add: unat_eq_0 flip: modn)
    with lastn have "unat (w_len (last tls)) = unat (v (size_cfg cfg) mod v (block_size cfg))"
      by (simp add: modn)
    then have "w_len (last tls) = v (size_cfg cfg) mod v (block_size cfg)"
      by (simp only: word_unat_eq_iff)
    with False show ?thesis by simp
  qed
  from run total each lastw show ?thesis by blast
qed

text \<open>
  The theorem at a total size of 10 with blocks of 4 and starting offset 4: the cycle
  is the three writes of lengths 4, 4 and 2.
\<close>

theorem write_cycle_lengths_witness:
  "worker_asserts (mk_config 10 4 1 1) 4 = None \<and>
   (\<exists>tls. write_cycle (mk_config 10 4 1 1) 4 = Some tls \<and>
      (\<Sum>t\<leftarrow>tls. unat (w_len t)) = unat (v (size_cfg (mk_config 10 4 1 1))) \<and>
      (\<forall>k<length tls. unat (w_len (tls ! k)) =
          min (unat (v (block_size (mk_config 10 4 1 1))))
              (unat (v (size_cfg (mk_config 10 4 1 1))) - (\<Sum>t\<leftarrow>take k tls. unat (w_len t)))) \<and>
      w_len (last tls) =
        (if v (size_cfg (mk_config 10 4 1 1)) mod v (block_size (mk_config 10 4 1 1)) \<noteq> 0
         then v (size_cfg (mk_config 10 4 1 1)) mod v (block_size (mk_config 10 4 1 1))
         else v (block_size (mk_config 10 4 1 1)))) \<and>
   write_cycle (mk_config 10 4 1 1) 4 = Some [Write 4 4, Write 8 4, Write 2 2]"
proof -
  have h: "worker_asserts (mk_config 10 4 1 1) 4 = None"
    by (simp add: worker_asserts_def mk_config_def)
  have r: "write_cycle (mk_config 10 4 1 1) 4 = Some [Write 4 4, Write 8 4, Write 2 2]"
    by (simp add: write_cycle_def mk_config_def write_loop.simps)
  from h write_cycle_lengths [OF h] r show ?thesis by (intro conjI)
qed

section \<open>Properties of the parser\<close>

lemma push_bit_1_minus_1: "push_bit m (1::u64) - 1 = mask m"
  by (simp add: mask_eq_exp_minus_1 push_bit_of_1)

lemma high_bit_set: "m \<le> i \<Longrightarrow> i < 64 \<Longrightarrow> bit (w::u64) i \<Longrightarrow> w AND NOT (mask m) \<noteq> 0"
proof
  assume a: "m \<le> i" "i < 64" "bit w i" and z: "w AND NOT (mask m) = 0"
  from a have "bit (w AND NOT (mask m)) i"
    by (simp add: bit_and_iff bit_not_iff bit_mask_iff)
  with z show False by simp
qed

lemma high_bits_clear_take_bit: "((w::u64) AND NOT (mask m) = 0) = (take_bit m w = w)"
  by (auto simp: bit_eq_iff bit_and_iff bit_not_iff bit_mask_iff bit_take_bit_iff
        dest: bit_imp_le_length)

lemma high_bits_clear_iff: "((w::u64) AND NOT (mask m) = 0) = (unat w < 2 ^ m)"
proof -
  have "(take_bit m w = w) = (unat (take_bit m w) = unat w)"
    by (simp only: word_unat_eq_iff)
  also have "\<dots> = (take_bit m (unat w) = unat w)"
    by (simp only: unsigned_take_bit_eq)
  also have "\<dots> = (unat w < 2 ^ m)"
    by (rule take_bit_nat_eq_self_iff)
  finally show ?thesis by (simp only: high_bits_clear_take_bit)
qed

lemma isdigit_not_special:
  "isdigit c \<Longrightarrow> c \<noteq> CHR 0x00 \<and> \<not> isspace c \<and> c \<noteq> CHR ''-'' \<and> c \<noteq> CHR ''+''"
  by (auto simp: isdigit_def isspace_def)

lemma unit_suffix_facts:
  assumes "(u, k) \<in> set unit_suffixes"
  shows "\<not> isdigit u" "u \<noteq> CHR 0x00" "unit_case_of u \<noteq> Case_default"
    "unit_case_of u \<noteq> Case_NUL" "lshift_of (unit_case_of u) = k" "0 < k" "k < 64"
  using assms by (auto simp: unit_suffixes_def isdigit_def unit_case_of_def lshift_of_def)

lemma c_str_digits:
  assumes "\<forall>c\<in>set ds. isdigit c" "u \<noteq> CHR 0x00"
  shows "c_str (ds @ [u]) = ds @ [u]"
  using assms unfolding c_str_def
  by (auto simp: takeWhile_eq_all_conv dest: isdigit_not_special)

lemma strtoull_digits:
  assumes ne: "ds \<noteq> []" and dig: "\<forall>c\<in>set ds. isdigit c" and u: "\<not> isdigit u"
    and small: "dec_value ds < 2 ^ 64"
  shows "strtoull (ds @ [u]) = (of_nat (dec_value ds), length ds, No_error)"
proof -
  from ne obtain d ds' where ds: "ds = d # ds'" by (cases ds) auto
  with dig have d: "isdigit d" by simp
  then have d': "\<not> isspace d" "d \<noteq> CHR ''-''" "d \<noteq> CHR ''+''"
    using isdigit_not_special by blast+
  have sp: "takeWhile isspace (ds @ [u]) = []" "dropWhile isspace (ds @ [u]) = ds @ [u]"
    using d' by (simp_all add: ds)
  have tw: "takeWhile isdigit (ds @ [u]) = ds"
    using dig u by (simp add: takeWhile_append2)
  have hd: "hd (ds @ [u]) = d" by (simp add: ds)
  from small have nl: "\<not> 2 ^ 64 \<le> dec_value ds" by simp
  show ?thesis
    unfolding strtoull_def Let_def sp hd
    using d' ne nl by (simp add: tw)
qed

text \<open>
  C3 as the specification states it includes the suffix B. The \<open>switch\<close> of
  \<open>parse\<close> has no case for it: a number followed by B is rejected and the object keeps
  its value.
\<close>

theorem parse_suffix_B_rejected:
  "parse ''1B'' \<lparr>v = 1048576\<rparr> = Inr (False, \<lparr>v = 1048576\<rparr>)"
  by (simp add: parse_def c_str_def strtoull_def isspace_def isdigit_def dec_value_def
      deref_def unit_case_of_def lshift_of_def ULLONG_MAX_def)

text \<open>
  C3, amended. For every input that is a non-empty run of decimal digits followed by one
  suffix in K, M, G, T (either case) and whose shifted value fits in 64 bits,
  \<open>parse\<close> succeeds, and the value it stores is the number shifted left by the
  suffix's amount: 10 bits for K, 20 for M, 30 for G, 40 for T.
\<close>

theorem parse_unit_suffix:
  assumes ne: "ds \<noteq> []" and digits: "list_all isdigit ds"
    and suf: "(u, k) \<in> set unit_suffixes"
    and fits: "dec_value ds * 2 ^ k < 2 ^ 64"
  shows "parse (ds @ [u]) self = Inr (True, self\<lparr>v := push_bit k (of_nat (dec_value ds))\<rparr>) \<and>
         unat (push_bit k (of_nat (dec_value ds)) :: u64) = dec_value ds * 2 ^ k"
proof -
  note sf = unit_suffix_facts [OF suf]
  from digits have dig: "\<forall>c\<in>set ds. isdigit c" by (simp add: list_all_iff)
  let ?n = "dec_value ds"
  let ?ret = "of_nat ?n :: u64"
  have "?n \<le> ?n * 2 ^ k" by simp
  from this fits have small: "?n < 2 ^ 64" by (rule le_less_trans)
  have cs: "c_str (ds @ [u]) = ds @ [u]" using dig sf(2) by (rule c_str_digits)
  have st: "strtoull (ds @ [u]) = (?ret, length ds, No_error)"
    using ne dig sf(1) small by (rule strtoull_digits)
  have un: "unat ?ret = ?n" using small by (simp add: unat_of_nat)
  have "(2::nat) ^ 64 = 2 ^ (64 - k) * 2 ^ k" using sf(7) by (simp flip: power_add)
  with fits have "?n * 2 ^ k < 2 ^ (64 - k) * 2 ^ k" by (simp only:)
  then have lt: "?n < 2 ^ (64 - k)" by simp
  then have chk: "?ret AND NOT (push_bit (64 - k) 1 - 1) = 0"
    by (simp only: push_bit_1_minus_1 high_bits_clear_iff un)
  have nf: "\<not> 64 \<le> 64 - k" using sf(6) by simp
  have d1: "deref (ds @ [u]) (length ds) = u"
    and d2: "deref (ds @ [u]) (length ds + 1) = CHR 0x00"
    by (simp_all add: deref_def)
  have len: "length ds \<noteq> 0" using ne by simp
  have p: "parse (ds @ [u]) self = Inr (True, self\<lparr>v := push_bit k ?ret\<rparr>)"
    unfolding parse_def cs st Let_def prod.case d1 d2 sf(5)
    using sf(3) sf(4) nf chk len by simp
  have "unat (push_bit k ?ret) = take_bit 64 (push_bit k ?n)"
    by (simp add: unsigned_push_bit_eq un)
  also have "\<dots> = ?n * 2 ^ k" using fits by (simp add: push_bit_eq_mult take_bit_nat_eq_self)
  finally show ?thesis using p by simp
qed

text \<open>The theorem at the input \<open>4K\<close>, which parses to 4096.\<close>

theorem parse_unit_suffix_witness:
  "''4'' \<noteq> [] \<and> list_all isdigit ''4'' \<and> (CHR ''K'', 10) \<in> set unit_suffixes \<and>
   dec_value ''4'' * 2 ^ 10 < 2 ^ 64 \<and>
   parse ''4K'' \<lparr>v = 0\<rparr> = Inr (True, \<lparr>v = 4096\<rparr>)"
proof -
  have h1: "''4'' \<noteq> []" by simp
  have h2: "list_all isdigit ''4''" by (simp add: isdigit_def)
  have h3: "(CHR ''K'', 10) \<in> set unit_suffixes" by (simp add: unit_suffixes_def)
  have h4: "dec_value ''4'' * 2 ^ 10 < 2 ^ 64" by (simp add: dec_value_def)
  from parse_unit_suffix [OF h1 h2 h3 h4, of "\<lparr>v = 0\<rparr>"]
  have "parse ''4K'' \<lparr>v = 0\<rparr> = Inr (True, \<lparr>v = 4096\<rparr>)" by (simp add: dec_value_def)
  with h1 h2 h3 h4 show ?thesis by (intro conjI)
qed

text \<open>
  C4. For every input string: when the number \<open>strtoull\<close> returns has one of its top
  \<open>shift\<close> bits set, where \<open>shift\<close> is the amount of the suffix that follows the
  number, \<open>parse\<close> returns false and the object keeps the value it had; no shifted,
  truncated value is stored.
\<close>

theorem parse_rejects_overflow:
  assumes st: "strtoull (c_str val) = (ret, endptr, err)"
    and k: "lshift_of (unit_case_of (deref (c_str val) endptr)) = k"
    and hi: "\<exists>i. 64 - k \<le> i \<and> i < 64 \<and> bit ret i"
  shows "parse val self = Inr (False, self)"
proof -
  from hi obtain i where i: "64 - k \<le> i" "i < 64" "bit ret i" by blast
  then have k0: "\<not> 64 \<le> 64 - k" by simp
  have m: "ret AND NOT (push_bit (64 - k) 1 - 1) \<noteq> 0"
    unfolding push_bit_1_minus_1 by (rule high_bit_set [OF i])
  show ?thesis
    unfolding parse_def st Let_def prod.case k
    using k0 m by simp
qed

text \<open>
  The theorem at the input \<open>16777216T\<close>: the number is \<open>2 ^ 24\<close>, the shift is 40, and
  bit 24 is one of the top 40 bits.
\<close>

theorem parse_rejects_overflow_witness:
  "strtoull (c_str ''16777216T'') = (16777216, 8, No_error) \<and>
   lshift_of (unit_case_of (deref (c_str ''16777216T'') 8)) = 40 \<and>
   (\<exists>i. 64 - 40 \<le> i \<and> i < 64 \<and> bit (16777216 :: u64) i) \<and>
   parse ''16777216T'' \<lparr>v = 7\<rparr> = Inr (False, \<lparr>v = 7\<rparr>)"
proof -
  have h1: "strtoull (c_str ''16777216T'') = (16777216, 8, No_error)"
    by (simp add: c_str_def strtoull_def isspace_def isdigit_def dec_value_def)
  have h2: "lshift_of (unit_case_of (deref (c_str ''16777216T'') 8)) = 40"
    by (simp add: c_str_def deref_def unit_case_of_def lshift_of_def)
  have "bit (16777216 :: u64) 24" by (simp add: bit_iff_odd_drop_bit drop_bit_eq_div)
  then have h3: "\<exists>i. 64 - 40 \<le> i \<and> i < 64 \<and> bit (16777216 :: u64) i"
    by (intro exI [of _ 24]) simp
  from h1 h2 h3 parse_rejects_overflow [OF h1 h2 h3, of "\<lparr>v = 7\<rparr>"] show ?thesis
    by (intro conjI)
qed

section \<open>Properties of the formatter\<close>

lemma max_units_5: "max_units = 5"
  by (simp add: max_units_def units_def)

lemma unat_ge_1024: "(1024 \<le> (x::u64)) = (1024 \<le> unat x)"
  by (simp add: word_le_nat_alt)

lemma unat_lt_MiB: "((x::u64) < 1048576) = (unat x < 1048576)"
  by (simp add: word_less_nat_alt)

lemma unat_mod_1024: "((x::u64) mod 1024 = 0) = (unat x mod 1024 = 0)"
proof -
  have "unat (x mod 1024) = unat x mod 1024" by (simp add: unat_mod)
  then show ?thesis by (metis unat_eq_0)
qed

lemma unat_drop_bit_10: "unat (drop_bit 10 (x::u64)) = unat x div 1024"
  by (simp add: drop_bit_eq_div unat_div)

text \<open>
  Below \<open>1024 ^ (5 - unit)\<close> the bound on \<open>unit\<close> never ends the loop: the loop and
  the scaling of the specification take the same steps, and the index stays in the
  table.
\<close>

lemma format_loop_spec:
  "unit \<le> 4 \<Longrightarrow> unat x < 1024 ^ (5 - unit) \<Longrightarrow>
     \<exists>x' u'. format_loop x unit = (x', u') \<and> spec_scale (unat x) unit = (unat x', u') \<and> u' \<le> 4"
proof (induction x unit rule: format_loop.induct)
  case (1 x unit)
  show ?case
  proof (cases "1024 \<le> unat x \<and> (unat x mod 1024 = 0 \<or> 1048576 \<le> unat x)")
    case False
    then have "format_loop x unit = (x, unit)"
      by (subst format_loop.simps) (auto simp: unat_ge_1024 unat_lt_MiB unat_mod_1024)
    moreover from False have "spec_scale (unat x) unit = (unat x, unit)"
      by (subst spec_scale.simps) auto
    ultimately show ?thesis using "1.prems" by simp
  next
    case True
    have u3: "unit \<le> 3"
    proof (rule ccontr)
      assume "\<not> unit \<le> 3"
      with "1.prems" have "unit = 4" by simp
      with "1.prems" True show False by simp
    qed
    then have pw: "(1024::nat) ^ (5 - unit) = 1024 * 1024 ^ (5 - (unit + 1))"
      by (simp add: Suc_diff_le flip: power_Suc)
    have cont: "1024 \<le> x \<and> unit < max_units" "\<not> (x < 1048576 \<and> x mod 1024 \<noteq> 0)"
      using True u3 by (auto simp: unat_ge_1024 unat_lt_MiB unat_mod_1024 max_units_5)
    have small: "unat (drop_bit 10 x) < 1024 ^ (5 - (unit + 1))"
      using "1.prems"(2) unfolding pw unat_drop_bit_10
      by (simp add: less_mult_imp_div_less mult.commute)
    from u3 have "unit + 1 \<le> 4" by simp
    from "1.IH" [OF cont this small] obtain x' u' where
      r: "format_loop (drop_bit 10 x) (unit + 1) = (x', u')"
         "spec_scale (unat (drop_bit 10 x)) (unit + 1) = (unat x', u')" "u' \<le> 4"
      by blast
    have "format_loop x unit = format_loop (drop_bit 10 x) (unit + 1)"
      by (subst format_loop.simps) (simp only: cont if_True if_False simp_thms)
    moreover have "spec_scale (unat x) unit = spec_scale (unat x div 1024) (unit + 1)"
      using True by (subst spec_scale.simps) simp
    ultimately show ?thesis using r by (simp add: unat_drop_bit_10)
  qed
qed

text \<open>
  C7 as the specification states it holds for every byte value. At \<open>2 ^ 60\<close> bytes the
  loop stops after five divisions, on its bound \<open>unit < max_units\<close>, with the value
  1024 still a multiple of 1024, where the specification's scaling divides once more;
  and the index 5 it stops with names no unit of the table, so no text with a unit is
  produced.
\<close>

theorem print_byte_units_EiB_counterexample:
  "format_loop 1152921504606846976 0 = (1024, 5) \<and>
   spec_scale 1152921504606846976 0 = (1, 6) \<and>
   print_byte_units \<lparr>v = 1152921504606846976\<rparr> = Inl Index_out_of_bounds"
  by (simp add: print_byte_units_def format_loop.simps spec_scale.simps max_units_5 units_def)

text \<open>
  C7, amended. For every byte value below \<open>2 ^ 50\<close> the formatter divides the value by
  1024 exactly while it is at least 1024 and either an exact multiple of 1024 or at
  least one mebibyte, and writes the result as an integer, a space, and the unit of the
  table \<open>B, KB, MB, GB, TB\<close> that belongs to the number of divisions.
\<close>

theorem print_byte_units_below_PiB:
  assumes "unat (v amount) < 2 ^ 50"
  shows "\<exists>x u. spec_scale (unat (v amount)) 0 = (x, u) \<and> u < length units \<and>
           print_byte_units amount = Inr (show_nat x @ '' '' @ units ! u)"
proof -
  have "(2::nat) ^ 50 = 1024 ^ (5 - 0)" by simp
  with assms have "unat (v amount) < 1024 ^ (5 - 0)" by (simp only:)
  from format_loop_spec [OF _ this] obtain x' u' where
    r: "format_loop (v amount) 0 = (x', u')" "spec_scale (unat (v amount)) 0 = (unat x', u')"
       "u' \<le> 4"
    by auto
  then show ?thesis by (simp add: print_byte_units_def units_def)
qed

text \<open>The theorem at 1049600 bytes, which is 1025 KiB and is written as \<open>1025 KB\<close>.\<close>

theorem print_byte_units_below_PiB_witness:
  "unat (v \<lparr>v = 1049600\<rparr>) < 2 ^ 50 \<and>
   (\<exists>x u. spec_scale (unat (v \<lparr>v = 1049600\<rparr>)) 0 = (x, u) \<and> u < length units \<and>
      print_byte_units \<lparr>v = 1049600\<rparr> = Inr (show_nat x @ '' '' @ units ! u)) \<and>
   spec_scale 1049600 0 = (1025, 1) \<and>
   print_byte_units \<lparr>v = 1049600\<rparr> = Inr ''1025 KB''"
proof -
  have h: "unat (v \<lparr>v = 1049600\<rparr>) < 2 ^ 50" by simp
  have s: "spec_scale 1049600 0 = (1025, 1)" by (simp add: spec_scale.simps)
  have p: "print_byte_units \<lparr>v = 1049600\<rparr> = Inr ''1025 KB''"
    by (simp add: print_byte_units_def format_loop.simps max_units_5 units_def
        show_nat.simps digit_chars_def)
  from h print_byte_units_below_PiB [OF h] s p show ?thesis by (intro conjI)
qed

text \<open>
  C10. The claim: the loop ends with a unit index of at most 4 for every value. The
  loop runs while \<open>unit < max_units\<close>, and \<open>max_units\<close> is 5, the number of elements
  of the table, so the index can reach 5. The size \<open>1024T\<close> parses to \<open>2 ^ 50\<close>
  bytes, for which the loop ends with the value 1 and the index 5, one past the last
  element of \<open>units\<close>.
\<close>

theorem format_loop_unit_index_past_table:
  "parse ''1024T'' \<lparr>v = 1048576\<rparr> = Inr (True, \<lparr>v = 1125899906842624\<rparr>) \<and>
   format_loop 1125899906842624 0 = (1, 5) \<and>
   length units = 5 \<and>
   print_byte_units \<lparr>v = 1125899906842624\<rparr> = Inl Index_out_of_bounds"
  by (simp add: parse_def c_str_def strtoull_def isspace_def isdigit_def dec_value_def
      deref_def unit_case_of_def lshift_of_def ULLONG_MAX_def
      print_byte_units_def format_loop.simps max_units_5 units_def)

section \<open>Properties of the driver\<close>

lemma word_of_int_nat_u64: "0 \<le> i \<Longrightarrow> (word_of_int i :: u64) = of_nat (nat i)"
  by simp

lemma unat_of_nat_u64: "n < 2 ^ 64 \<Longrightarrow> unat (of_nat n :: u64) = n"
  by (simp add: unat_of_nat)

lemma dvd_scale: "(b::nat) dvd n \<Longrightarrow> n * c div b = n div b * c"
  by (auto simp: dvd_def)

lemma unat_scaled_offset:
  assumes i: "0 \<le> i" and t: "1 \<le> t" "t \<le> INT_MAX"
    and nowrap: "nat i * unat (s::u64) < 2 ^ 64"
  shows "unat ((word_of_int i * s) div word_of_int t) = nat i * unat s div nat t"
    and "(word_of_int t :: u64) \<noteq> 0"
proof -
  from t have tn: "nat t < 2 ^ 64" by (simp add: INT_MAX_def)
  from t have t0: "0 \<le> t" by simp
  have ut: "unat (word_of_int t :: u64) = nat t"
    using tn by (simp only: word_of_int_nat_u64 [OF t0] unat_of_nat_u64)
  from t have "nat t \<noteq> 0" by simp
  with ut show "(word_of_int t :: u64) \<noteq> 0" by (metis unat_eq_0)
  have "word_of_int i * s = (of_nat (nat i * unat s) :: u64)"
    by (simp add: word_of_int_nat_u64 [OF i])
  then have "unat (word_of_int i * s) = nat i * unat s"
    using nowrap by (simp only: unat_of_nat_u64)
  then show "unat ((word_of_int i * s) div word_of_int t) = nat i * unat s div nat t"
    by (simp only: unat_div ut)
qed

text \<open>
  C8 as the specification states it fails in three ways. With a total size of zero the
  only offset, 0, is not below the total size. With a total size of \<open>2 ^ 62\<close> and 8
  threads the product \<open>i * cfg.size\<close> wraps around at \<open>i = 4\<close>, so the offset of
  worker 4 is 0, below that of worker 3. With a total size of 12, 5 threads and a block
  size of 2, both 12 and \<open>12 div 5\<close> are multiples of the block size, and the offset
  of worker 3 is 7.
\<close>

theorem starting_offset_counterexample:
  "starting_offset (mk_config 0 4096 1 1) 0 = Inr 0 \<and>
   starting_offset (mk_config 4611686018427387904 4096 1 8) 3 = Inr 1729382256910270464 \<and>
   starting_offset (mk_config 4611686018427387904 4096 1 8) 4 = Inr 0 \<and>
   (12 :: u64) mod 2 = 0 \<and> ((12 :: u64) div 5) mod 2 = 0 \<and>
   starting_offset (mk_config 12 2 1 5) 3 = Inr 7 \<and> (7 :: u64) mod 2 = 1"
  by (simp add: starting_offset_def mk_config_def)

text \<open>
  C8, amended. For every thread count from 1 to \<open>INT_MAX\<close>, every total size other
  than zero for which \<open>(thread_count - 1) * total_size\<close> fits in 64 bits, and every
  \<open>i\<close> in \<open>[0, thread_count)\<close>: the starting offset of worker \<open>i\<close> is below the
  total size; the offset of every worker before it is not larger; and when the total
  size is an exact multiple of \<open>thread_count * block_size\<close>, the offset is a multiple
  of the block size.
\<close>

theorem starting_offset_in_range:
  assumes t: "1 \<le> threads cfg" "threads cfg \<le> INT_MAX"
    and sz: "v (size_cfg cfg) \<noteq> 0"
    and nowrap: "nat (threads cfg - 1) * unat (v (size_cfg cfg)) < 2 ^ 64"
    and i: "0 \<le> i" "i < threads cfg"
  shows "\<exists>off. starting_offset cfg i = Inr off \<and> off < v (size_cfg cfg) \<and>
           (\<forall>j. 0 \<le> j \<and> j \<le> i \<longrightarrow>
                (\<exists>off'. starting_offset cfg j = Inr off' \<and> off' \<le> off)) \<and>
           (nat (threads cfg) * unat (v (block_size cfg)) dvd unat (v (size_cfg cfg)) \<longrightarrow>
                v (block_size cfg) \<noteq> 0 \<and> off mod v (block_size cfg) = 0)"
proof -
  let ?S = "unat (v (size_cfg cfg))" and ?T = "nat (threads cfg)"
  let ?B = "unat (v (block_size cfg))"
  let ?off = "\<lambda>i. (word_of_int i * v (size_cfg cfg)) div word_of_int (threads cfg)"
  have S: "0 < ?S" using sz by (simp add: unat_gt_0)
  have T: "0 < ?T" using t by simp
  have fit: "nat j * ?S < 2 ^ 64" if "0 \<le> j" "j \<le> i" for j
  proof -
    from that i have "nat j \<le> nat (threads cfg - 1)" by simp
    then have "nat j * ?S \<le> nat (threads cfg - 1) * ?S" by (rule mult_le_mono1)
    from this nowrap show ?thesis by (rule le_less_trans)
  qed
  have val: "unat (?off j) = nat j * ?S div ?T" if "0 \<le> j" "j \<le> i" for j
    using that(1) t fit [OF that] by (rule unat_scaled_offset(1))
  have nz: "(word_of_int (threads cfg) :: u64) \<noteq> 0"
    using i(1) t fit [OF i(1) order_refl] by (rule unat_scaled_offset(2))
  have run: "starting_offset cfg j = Inr (?off j)" for j
    using nz by (simp add: starting_offset_def)
  have vi: "unat (?off i) = nat i * ?S div ?T" using i(1) by (simp add: val)
  have "nat i < ?T" using i by simp
  then have "nat i * ?S < ?S * ?T" using S by simp
  then have "nat i * ?S div ?T < ?S" using T by (simp add: div_less_iff_less_mult)
  then have below: "?off i < v (size_cfg cfg)" by (simp only: word_less_nat_alt vi)
  have mono: "\<exists>off'. starting_offset cfg j = Inr off' \<and> off' \<le> ?off i"
    if "0 \<le> j \<and> j \<le> i" for j
  proof -
    from that have "nat j \<le> nat i" by (intro nat_mono) simp
    then have "nat j * ?S \<le> nat i * ?S" by (rule mult_le_mono1)
    then have "nat j * ?S div ?T \<le> nat i * ?S div ?T" by (rule div_le_mono)
    then have "?off j \<le> ?off i" using that by (simp only: word_le_nat_alt val vi)
    then show ?thesis by (simp add: run)
  qed
  have align: "v (block_size cfg) \<noteq> 0 \<and> ?off i mod v (block_size cfg) = 0"
    if "?T * ?B dvd ?S"
  proof -
    from that obtain q where q: "?S = ?T * ?B * q" by (auto simp: dvd_def)
    with S have B: "?B \<noteq> 0" by (cases "?B = 0") simp_all
    have "nat i * ?S div ?T = ?T * (nat i * ?B * q) div ?T" by (simp add: q mult_ac)
    also have "\<dots> = nat i * q * ?B" using T by (simp add: mult_ac)
    finally have "unat (?off i) mod ?B = 0" by (simp add: vi)
    then have "unat (?off i mod v (block_size cfg)) = 0" by (simp add: unat_mod)
    then have "?off i mod v (block_size cfg) = 0" by (simp only: unat_eq_0)
    moreover from B have "v (block_size cfg) \<noteq> 0" by (simp add: unat_eq_0)
    ultimately show ?thesis by simp
  qed
  show ?thesis
  proof (rule exI [of _ "?off i"], intro conjI)
    show "starting_offset cfg i = Inr (?off i)" by (rule run)
    show "?off i < v (size_cfg cfg)" by (rule below)
    show "\<forall>j. 0 \<le> j \<and> j \<le> i \<longrightarrow>
        (\<exists>off'. starting_offset cfg j = Inr off' \<and> off' \<le> ?off i)"
      using mono by blast
    show "?T * ?B dvd ?S \<longrightarrow> v (block_size cfg) \<noteq> 0 \<and> ?off i mod v (block_size cfg) = 0"
      using align by blast
  qed
qed

text \<open>
  The theorem for the last of 4 workers on a total size of 64 KiB with blocks of
  16 KiB: the starting offset is 49152.
\<close>

theorem starting_offset_in_range_witness:
  "1 \<le> threads (mk_config 65536 16384 2 4) \<and> threads (mk_config 65536 16384 2 4) \<le> INT_MAX \<and>
   v (size_cfg (mk_config 65536 16384 2 4)) \<noteq> 0 \<and>
   nat (threads (mk_config 65536 16384 2 4) - 1) * unat (v (size_cfg (mk_config 65536 16384 2 4)))
     < 2 ^ 64 \<and>
   (0::int) \<le> 3 \<and> 3 < threads (mk_config 65536 16384 2 4) \<and>
   (\<exists>off. starting_offset (mk_config 65536 16384 2 4) 3 = Inr off \<and>
      off < v (size_cfg (mk_config 65536 16384 2 4)) \<and>
      (\<forall>j. 0 \<le> j \<and> j \<le> 3 \<longrightarrow>
         (\<exists>off'. starting_offset (mk_config 65536 16384 2 4) j = Inr off' \<and> off' \<le> off)) \<and>
      (nat (threads (mk_config 65536 16384 2 4)) *
         unat (v (block_size (mk_config 65536 16384 2 4)))
         dvd unat (v (size_cfg (mk_config 65536 16384 2 4))) \<longrightarrow>
       v (block_size (mk_config 65536 16384 2 4)) \<noteq> 0 \<and>
       off mod v (block_size (mk_config 65536 16384 2 4)) = 0)) \<and>
   nat (threads (mk_config 65536 16384 2 4)) * unat (v (block_size (mk_config 65536 16384 2 4)))
     dvd unat (v (size_cfg (mk_config 65536 16384 2 4))) \<and>
   starting_offset (mk_config 65536 16384 2 4) 3 = Inr 49152"
proof -
  let ?c = "mk_config 65536 16384 2 4"
  have h1: "1 \<le> threads ?c" and h2: "threads ?c \<le> INT_MAX" and h3: "v (size_cfg ?c) \<noteq> 0"
    and h4: "nat (threads ?c - 1) * unat (v (size_cfg ?c)) < 2 ^ 64"
    and h5: "(0::int) \<le> 3" and h6: "3 < threads ?c"
    and h7: "nat (threads ?c) * unat (v (block_size ?c)) dvd unat (v (size_cfg ?c))"
    by (simp_all add: mk_config_def INT_MAX_def)
  have e: "starting_offset ?c 3 = Inr 49152"
    by (simp add: starting_offset_def mk_config_def)
  from h1 h2 h3 h4 h5 h6 starting_offset_in_range [OF h1 h2 h3 h4 h5 h6] h7 e show ?thesis
    by (intro conjI)
qed

text \<open>
  C5 as the specification states it fails in two ways. The program computes \<open>iops\<close> as
  \<open>(1000000 * total / block_size) / elapsed\<close>, multiplying before it divides by the
  block size: for 5 bytes in blocks of 2 in one microsecond it reports 2500000, where
  \<open>(total / block_size) * 1000000 / elapsed\<close> is 2000000. And every product is a
  64-bit unsigned product: for 32 cycles of one tebibyte in one second the product
  \<open>1000000 * total\<close> wraps around and the reported rate is 16737628015122, where the
  exact rate is 35184372088832.
\<close>

theorem throughput_counterexample:
  "throughput (mk_config 5 2 1 1) 1 = Inr (5, 5000000, 2500000) \<and>
   ((5::nat) div 2) * 1000000 div 1 = 2000000 \<and>
   throughput (mk_config 1099511627776 4096 32 1) 1000000 =
     Inr (35184372088832, 16737628015122, 4086334964) \<and>
   (1099511627776::nat) * 32 * 1 * 1000000 div 1000000 = 35184372088832"
  by (simp add: throughput_def mk_config_def)

text \<open>
  C5, amended. Given repeats and threads that are not negative, a block size other than
  zero, a positive elapsed time in microseconds, and
  \<open>total_size * repeats * thread_count * 1000000\<close> below \<open>2 ^ 64\<close>, the reported
  statistics are the exact values \<open>total_bytes = total_size * repeats * thread_count\<close>,
  \<open>rate = total_bytes * 1000000 / elapsed\<close> and
  \<open>iops = (total_bytes * 1000000 / block_size) / elapsed\<close>; when the block size
  divides \<open>total_bytes\<close>, \<open>iops\<close> is also
  \<open>(total_bytes / block_size) * 1000000 / elapsed\<close>.
\<close>

theorem throughput_exact:
  assumes r: "0 \<le> repeats cfg" and t: "0 \<le> threads cfg"
    and d: "0 < d" "d < 2 ^ 63"
    and bs: "v (block_size cfg) \<noteq> 0"
    and fits: "unat (v (size_cfg cfg)) * nat (repeats cfg) * nat (threads cfg) * 1000000 < 2 ^ 64"
  shows "\<exists>total rate iops. throughput cfg d = Inr (total, rate, iops) \<and>
           unat total = unat (v (size_cfg cfg)) * nat (repeats cfg) * nat (threads cfg) \<and>
           unat rate = unat total * 1000000 div nat d \<and>
           unat iops = (unat total * 1000000 div unat (v (block_size cfg))) div nat d \<and>
           (unat (v (block_size cfg)) dvd unat total \<longrightarrow>
              unat iops = (unat total div unat (v (block_size cfg))) * 1000000 div nat d)"
proof -
  let ?N = "unat (v (size_cfg cfg)) * nat (repeats cfg) * nat (threads cfg)"
  let ?B = "unat (v (block_size cfg))"
  let ?total = "v (size_cfg cfg) * word_of_int (repeats cfg) * word_of_int (threads cfg)"
  let ?d = "word_of_int d :: u64"
  have "?N \<le> ?N * 1000000" by simp
  from this fits have N: "?N < 2 ^ 64" by (rule le_less_trans)
  have tw: "?total = of_nat ?N"
    by (simp add: word_of_int_nat_u64 [OF r] word_of_int_nat_u64 [OF t])
  have ut: "unat ?total = ?N" using N by (simp only: tw unat_of_nat_u64)
  have "1000000 * ?total = (of_nat (?N * 1000000) :: u64)" by (simp add: tw)
  then have um: "unat (1000000 * ?total) = ?N * 1000000"
    using fits by (simp only: unat_of_nat_u64)
  from d have d0: "0 \<le> d" and dn: "nat d < 2 ^ 64" by simp_all
  have ud: "unat ?d = nat d"
    using dn by (simp only: word_of_int_nat_u64 [OF d0] unat_of_nat_u64)
  from d have "nat d \<noteq> 0" by simp
  with ud have dz: "?d \<noteq> 0" by (metis unat_eq_0)
  have run: "throughput cfg d =
      Inr (?total, (1000000 * ?total) div ?d, ((1000000 * ?total) div v (block_size cfg)) div ?d)"
    using dz bs by (simp add: throughput_def Let_def)
  have rate: "unat ((1000000 * ?total) div ?d) = unat ?total * 1000000 div nat d"
    by (simp only: unat_div um ud ut)
  have iops: "unat (((1000000 * ?total) div v (block_size cfg)) div ?d) =
      (unat ?total * 1000000 div ?B) div nat d"
    by (simp only: unat_div um ud ut)
  have swap: "unat ?total * 1000000 div ?B = (unat ?total div ?B) * 1000000"
    if "?B dvd unat ?total"
    using that by (rule dvd_scale)
  show ?thesis
  proof (intro exI conjI)
    show "throughput cfg d = Inr (?total, (1000000 * ?total) div ?d,
        ((1000000 * ?total) div v (block_size cfg)) div ?d)" by (rule run)
    show "unat ?total = ?N" by (rule ut)
    show "unat ((1000000 * ?total) div ?d) = unat ?total * 1000000 div nat d" by (rule rate)
    show "unat (((1000000 * ?total) div v (block_size cfg)) div ?d) =
      (unat ?total * 1000000 div ?B) div nat d" by (rule iops)
    show "?B dvd unat ?total \<longrightarrow>
      unat (((1000000 * ?total) div v (block_size cfg)) div ?d) =
        (unat ?total div ?B) * 1000000 div nat d"
      using swap by (simp only: iops) simp
  qed
qed

text \<open>
  The theorem for the default configuration, one mebibyte in blocks of 4096 written once
  by one thread, in one second: 1048576 bytes per second and 256 operations per second.
\<close>

theorem throughput_exact_witness:
  "0 \<le> repeats Config_default \<and> 0 \<le> threads Config_default \<and>
   (0::int) < 1000000 \<and> (1000000::int) < 2 ^ 63 \<and>
   v (block_size Config_default) \<noteq> 0 \<and>
   unat (v (size_cfg Config_default)) * nat (repeats Config_default) *
     nat (threads Config_default) * 1000000 < 2 ^ 64 \<and>
   (\<exists>total rate iops. throughput Config_default 1000000 = Inr (total, rate, iops) \<and>
      unat total = unat (v (size_cfg Config_default)) * nat (repeats Config_default) *
        nat (threads Config_default) \<and>
      unat rate = unat total * 1000000 div nat 1000000 \<and>
      unat iops = (unat total * 1000000 div unat (v (block_size Config_default))) div nat 1000000 \<and>
      (unat (v (block_size Config_default)) dvd unat total \<longrightarrow>
         unat iops = (unat total div unat (v (block_size Config_default))) * 1000000
           div nat 1000000)) \<and>
   throughput Config_default 1000000 = Inr (1048576, 1048576, 256)"
proof -
  have h1: "0 \<le> repeats Config_default" and h2: "0 \<le> threads Config_default"
    and h3: "(0::int) < 1000000" and h4: "(1000000::int) < 2 ^ 63"
    and h5: "v (block_size Config_default) \<noteq> 0"
    and h6: "unat (v (size_cfg Config_default)) * nat (repeats Config_default) *
      nat (threads Config_default) * 1000000 < 2 ^ 64"
    by (simp_all add: Config_default_def)
  have e: "throughput Config_default 1000000 = Inr (1048576, 1048576, 256)"
    by (simp add: throughput_def Config_default_def)
  from h1 h2 h3 h4 h5 h6 throughput_exact [OF h1 h2 h3 h4 h5 h6] e show ?thesis
    by (intro conjI)
qed

text \<open>
  C6. The claim: with an elapsed time of zero microseconds the computation of the rate
  and of the iops ends in a reported error. The program divides by the tick count
  without a test. Started with \<open>--threads 0\<close> it spawns no worker, so the two clock
  readings can lie less than a microsecond apart and the tick count is 0: the first
  division, the one for the rate, is then an integer division by zero, for which C++
  defines no result, while one microsecond more gives the statistics 0, 0 and 0.
\<close>

theorem throughput_divides_by_zero_elapsed:
  "spawn_offsets (mk_config 1048576 4096 1 0) = [] \<and>
   throughput (mk_config 1048576 4096 1 0) 0 = Inl Division_by_zero \<and>
   throughput (mk_config 1048576 4096 1 0) 1 = Inr (0, 0, 0)"
  by (simp add: spawn_offsets_def throughput_def mk_config_def)

end
